theory Spec2Isabelle
  imports Main
begin

section \<open>The raster image encoder of escpos/commandset/generic.py\<close>

text \<open>
  The module is Python 2: \<^verbatim>\<open>/\<close> between integers is floor division (HOL's \<open>div\<close> on
  \<open>int\<close>), \<^verbatim>\<open>%\<close> with a positive modulus gives a non-negative remainder (HOL's
  \<open>mod\<close>), and \<^verbatim>\<open>str\<close> is a byte string, which is what a HOL \<open>string\<close> is. The
  model covers \<^verbatim>\<open>_check_image_size\<close>, \<^verbatim>\<open>_print_image\<close> and
  \<^verbatim>\<open>_convert_and_print_image\<close>, together with the text primitives they call.
\<close>

subsection \<open>Exceptions\<close>

datatype error = ValueError | TypeError | ZeroDivisionError

subsection \<open>Text primitives\<close>

text \<open>The format \<^verbatim>\<open>"%02X" % v\<close>: upper-case hexadecimal, zero-padded to two characters.\<close>

definition hex_digit :: "nat \<Rightarrow> char" where
  "hex_digit d = ''0123456789ABCDEF'' ! d"

fun hex_digits :: "nat \<Rightarrow> string" where
  "hex_digits n =
     (if n < 16 then [hex_digit n] else hex_digits (n div 16) @ [hex_digit (n mod 16)])"

declare hex_digits.simps [simp del]

definition fmt_02X :: "int \<Rightarrow> string" where
  "fmt_02X v =
     (let s = (if v < 0 then CHR ''-'' # hex_digits (nat (- v)) else hex_digits (nat v))
      in replicate (2 - length s) CHR ''0'' @ s)"

text \<open>The format \<^verbatim>\<open>"%d" % v\<close>.\<close>

definition dec_digit :: "nat \<Rightarrow> char" where
  "dec_digit d = ''0123456789'' ! d"

fun dec_digits :: "nat \<Rightarrow> string" where
  "dec_digits n =
     (if n < 10 then [dec_digit n] else dec_digits (n div 10) @ [dec_digit (n mod 10)])"

declare dec_digits.simps [simp del]

definition fmt_d :: "int \<Rightarrow> string" where
  "fmt_d v = (if v < 0 then CHR ''-'' # dec_digits (nat (- v)) else dec_digits (nat v))"

text \<open>
  \<^verbatim>\<open>int(s, 2)\<close> on a text made of the characters 0 and 1, most significant digit
  first. That is every text the encoder builds (lemma \<open>scan_binary\<close> below). On the
  empty text and on a text with another character the model raises ValueError, as
  Python does for every such text except those with surrounding blanks, a sign or a
  \<^verbatim>\<open>0b\<close> prefix, which the model does not cover.
\<close>

definition is_bit :: "char \<Rightarrow> bool" where
  "is_bit c = (c = CHR ''0'' \<or> c = CHR ''1'')"

definition bin_value :: "string \<Rightarrow> int" where
  "bin_value s = foldl (\<lambda>a c. 2 * a + (if c = CHR ''1'' then 1 else 0)) 0 s"

definition int_base2 :: "string \<Rightarrow> error + int" where
  "int_base2 s =
     (if s = [] then Inl ValueError
      else if list_all is_bit s then Inr (bin_value s)
      else Inl ValueError)"

text \<open>
  \<^verbatim>\<open>s.decode('hex')\<close>: two hexadecimal digits of either case give one byte; a text of
  odd length or with another character raises TypeError.
\<close>

definition hex_value :: "char \<Rightarrow> nat option" where
  "hex_value c =
     (let n = (of_char c :: nat)
      in if 48 \<le> n \<and> n \<le> 57 then Some (n - 48)
         else if 65 \<le> n \<and> n \<le> 70 then Some (n - 55)
         else if 97 \<le> n \<and> n \<le> 102 then Some (n - 87)
         else None)"

fun decode_hex :: "string \<Rightarrow> error + string" where
  "decode_hex [] = Inr []"
| "decode_hex [c] = Inl TypeError"
| "decode_hex (a # b # cs) =
     (case hex_value a of
        None \<Rightarrow> Inl TypeError
      | Some hi \<Rightarrow>
          (case hex_value b of
             None \<Rightarrow> Inl TypeError
           | Some lo \<Rightarrow>
               (case decode_hex cs of
                  Inl e \<Rightarrow> Inl e
                | Inr bs \<Rightarrow> Inr (char_of (16 * hi + lo) # bs))))"

subsection \<open>The printer: the byte sink and the console\<close>

text \<open>
  \<^verbatim>\<open>self._write(data)\<close> hands one byte string to the transport; the model keeps the
  strings handed over, in order. \<^verbatim>\<open>print\<close> writes a line to the console.
\<close>

record printer =
  written :: "string list"
  stdout :: "string list"

definition write_bytes :: "string \<Rightarrow> printer \<Rightarrow> printer" where
  "write_bytes data p = p\<lparr>written := written p @ [data]\<rparr>"

definition print_line :: "string \<Rightarrow> printer \<Rightarrow> printer" where
  "print_line msg p = p\<lparr>stdout := stdout p @ [msg]\<rparr>"

text \<open>The entry \<^verbatim>\<open>'1x1'\<close> of the table \<^verbatim>\<open>_image_size\<close>: the bytes 1D 76 30 00.\<close>

definition image_size_1x1 :: string where
  "image_size_1x1 = [CHR 0x1D, CHR 0x76, CHR 0x30, CHR 0x00]"

subsection \<open>\<^verbatim>\<open>_check_image_size\<close>\<close>

definition check_image_size :: "int \<Rightarrow> int \<times> int" where
  "check_image_size size' =
     (if size' mod 32 = 0 then (0, 0)
      else (let image_border = 32 - (size' mod 32)
            in if image_border mod 2 = 0
               then (image_border div 2, image_border div 2)
               else (image_border div 2, (image_border div 2) + 1)))"

subsection \<open>\<^verbatim>\<open>_print_image\<close>\<close>

text \<open>
  The \<^verbatim>\<open>while\<close> loop, with its local variables \<open>i\<close>, \<open>cont\<close> and \<open>buffer\<close>. It
  returns the value \<open>buffer\<close> has when the loop ends, or the exception raised.
\<close>

function print_loop ::
  "string \<Rightarrow> nat \<Rightarrow> nat \<Rightarrow> string \<Rightarrow> printer \<Rightarrow> (error + string) \<times> printer" where
  "print_loop line i cont buffer p =
     (if i < length line then
        (case int_base2 (take 8 (drop i line)) of
           Inl e \<Rightarrow> (Inl e, p)
         | Inr hex_string \<Rightarrow>
             (if (cont + 1) mod 4 = 0 then
                (case decode_hex (buffer @ fmt_02X hex_string) of
                   Inl e \<Rightarrow> (Inl e, p)
                 | Inr bs \<Rightarrow> print_loop line (i + 8) 0 [] (write_bytes bs p))
              else print_loop line (i + 8) (cont + 1) (buffer @ fmt_02X hex_string) p))
      else (Inr buffer, p))"
  by pat_completeness auto
termination
  by (relation "measure (\<lambda>(line, i, cont, buffer, p). length line - i)") auto

declare print_loop.simps [simp del]

text \<open>
  The preamble is written first; the header text is built next (the division raises
  when \<open>size[1]\<close> is 0) and decoded (which raises unless it is an even number of
  hexadecimal digits); then the loop runs.
\<close>

definition print_image :: "string \<Rightarrow> int \<times> int \<Rightarrow> printer \<Rightarrow> (error + unit) \<times> printer" where
  "print_image line size' p =
     (let p1 = write_bytes image_size_1x1 p
      in if snd size' = 0 then (Inl ZeroDivisionError, p1)
         else (case decode_hex (fmt_02X ((fst size' div snd size') div 8) @ fmt_02X 0
                                @ fmt_02X (snd size') @ fmt_02X 0) of
                 Inl e \<Rightarrow> (Inl e, p1)
               | Inr header \<Rightarrow>
                   (case print_loop line 0 0 [] (write_bytes header p1) of
                      (Inl e, p2) \<Rightarrow> (Inl e, p2)
                    | (Inr buffer, p2) \<Rightarrow> (Inr (), p2))))"

subsection \<open>\<^verbatim>\<open>_convert_and_print_image\<close>\<close>

text \<open>
  The image is what PIL hands over after \<^verbatim>\<open>convert("RGB")\<close>: its \<^verbatim>\<open>size\<close>
  (width, height) and \<^verbatim>\<open>getpixel((x, y))\<close>, a triple of integers.
\<close>

record image =
  im_size :: "nat \<times> nat"
  getpixel :: "nat \<times> nat \<Rightarrow> int \<times> int \<times> int"

text \<open>The local variables \<^verbatim>\<open>pix_line\<close>, \<^verbatim>\<open>switch\<close> and \<^verbatim>\<open>img_size\<close> of the scan.\<close>

record scan =
  pix_line :: string
  switch :: int
  img_size :: "int \<times> int"

text \<open>
  The inner \<^verbatim>\<open>for x in range(pattern_len)\<close> loop over the bands; each branch that
  appends a character ends the loop (\<^verbatim>\<open>break\<close>).
\<close>

fun band_loop :: "string \<Rightarrow> int \<Rightarrow> int \<Rightarrow> nat list \<Rightarrow> string \<Rightarrow> string" where
  "band_loop im_pattern im_color sw [] line = line"
| "band_loop im_pattern im_color sw (x # xs) line =
     (let pattern_len = int (length im_pattern)
      in if im_color \<le> 255 * 3 div pattern_len * (int x + 1) then
           (if im_pattern ! x = CHR ''X'' then line @ fmt_d sw
            else line @ [im_pattern ! x])
         else if im_color > 255 * 3 div pattern_len * pattern_len \<and> im_color \<le> 255 * 3 then
           line @ [last im_pattern]
         else band_loop im_pattern im_color sw xs line)"

text \<open>The body of \<^verbatim>\<open>for x in range(im.size[0])\<close>, for the pixel at column x of row y.\<close>

definition pixel_body :: "image \<Rightarrow> nat \<Rightarrow> nat \<Rightarrow> scan \<Rightarrow> scan" where
  "pixel_body im y x s =
     (let (r, g, b) = getpixel im (x, y);
          im_color = r + g + b;
          im_pattern = ''1X0'';
          sw = (switch s - 1) * (- 1)
      in s\<lparr>img_size := (fst (img_size s) + 1, snd (img_size s)),
           switch := sw,
           pix_line := band_loop im_pattern im_color sw [0..<length im_pattern] (pix_line s)\<rparr>)"

text \<open>The body of \<^verbatim>\<open>for y in range(im.size[1])\<close>.\<close>

definition row_body :: "image \<Rightarrow> int \<times> int \<Rightarrow> string \<Rightarrow> string \<Rightarrow> nat \<Rightarrow> scan \<Rightarrow> scan" where
  "row_body im im_border im_left im_right y s =
     (let s1 = s\<lparr>img_size := (fst (img_size s), snd (img_size s) + 1)\<rparr>;
          s2 = s1\<lparr>pix_line := pix_line s1 @ im_left\<rparr>;
          s3 = s2\<lparr>img_size := (fst (img_size s2) + fst im_border, snd (img_size s2))\<rparr>;
          s4 = fold (pixel_body im y) [0..<fst (im_size im)] s3;
          s5 = s4\<lparr>pix_line := pix_line s4 @ im_right\<rparr>
      in s5\<lparr>img_size := (fst (img_size s5) + snd im_border, snd (img_size s5))\<rparr>)"

text \<open>Everything between the two checks and the call of \<^verbatim>\<open>_print_image\<close>.\<close>

definition scan_image :: "image \<Rightarrow> scan" where
  "scan_image im =
     (let im_border = check_image_size (int (fst (im_size im)));
          im_left = replicate (nat (fst im_border)) CHR ''0'';
          im_right = replicate (nat (snd im_border)) CHR ''0''
      in fold (row_body im im_border im_left im_right) [0..<snd (im_size im)]
           \<lparr>pix_line = [], switch = 0, img_size = (0, 0)\<rparr>)"

definition width_warning :: string where
  "width_warning = ''WARNING: Image is wider than 512 and could be truncated at print time ''"

definition convert_and_print_image :: "image \<Rightarrow> printer \<Rightarrow> (error + unit) \<times> printer" where
  "convert_and_print_image im p =
     (let p1 = (if fst (im_size im) > 512 then print_line width_warning p else p)
      in if snd (im_size im) > 255 then (Inl ValueError, p1)
         else (let s = scan_image im in print_image (pix_line s) (img_size s) p1))"

subsection \<open>Notions used to state the properties\<close>

text \<open>An image whose pixels all have the same colour.\<close>

definition uniform_image :: "nat \<Rightarrow> nat \<Rightarrow> int \<times> int \<times> int \<Rightarrow> image" where
  "uniform_image w h rgb = \<lparr>im_size = (w, h), getpixel = (\<lambda>xy. rgb)\<rparr>"

text \<open>A printer that has received nothing yet.\<close>

definition fresh :: printer where
  "fresh = \<lparr>written = [], stdout = []\<rparr>"

text \<open>
  The padded row width \<^verbatim>\<open>im_border[0] + im.size[0] + im_border[1]\<close> of an image of
  width w.
\<close>

definition padded_width :: "nat \<Rightarrow> int" where
  "padded_width w = fst (check_image_size (int w)) + int w + snd (check_image_size (int w))"

text \<open>
  The bytes the loop of \<^verbatim>\<open>_print_image\<close> forms from a line: one byte
  \<^verbatim>\<open>int(line[i:i + 8], 2)\<close> for each i = 0, 8, 16, ... below the length of the line.
\<close>

fun pack :: "string \<Rightarrow> string" where
  "pack line =
     (if line = [] then [] else char_of (bin_value (take 8 line)) # pack (drop 8 line))"

declare pack.simps [simp del]

text \<open>The complete groups of four bytes of a byte string, and the bytes after the last of them.\<close>

fun groups4 :: "string \<Rightarrow> string list" where
  "groups4 bs = (if length bs < 4 then [] else take 4 bs # groups4 (drop 4 bs))"

fun leftover :: "string \<Rightarrow> string" where
  "leftover bs = (if length bs < 4 then bs else leftover (drop 4 bs))"

declare groups4.simps [simp del] leftover.simps [simp del]

text \<open>The text \<^verbatim>\<open>buffer\<close> holds for a sequence of bytes: two hexadecimal digits each.\<close>

definition hexes :: "string \<Rightarrow> string" where
  "hexes bs = concat (map (\<lambda>c. fmt_02X (of_char c)) bs)"

text \<open>
  Re-expanding a byte into eight bits, most significant first, as characters 0 and 1
  (the inverse direction the round-trip property speaks of; it is not in the source).
\<close>

definition expand_byte :: "char \<Rightarrow> string" where
  "expand_byte c =
     map (\<lambda>k. if bit (of_char c :: int) k then CHR ''1'' else CHR ''0'') [7, 6, 5, 4, 3, 2, 1, 0]"

text \<open>A property of colours holds for every pixel of the image.\<close>

definition all_pixels :: "(int \<times> int \<times> int \<Rightarrow> bool) \<Rightarrow> image \<Rightarrow> bool" where
  "all_pixels P im =
     list_all (\<lambda>y. list_all (\<lambda>x. P (getpixel im (x, y))) [0..<fst (im_size im)])
       [0..<snd (im_size im)]"

text \<open>The three channels of a colour are in 0..255.\<close>

definition pixel_ok :: "int \<times> int \<times> int \<Rightarrow> bool" where
  "pixel_ok rgb = (case rgb of (r, g, b) \<Rightarrow>
     0 \<le> r \<and> r \<le> 255 \<and> 0 \<le> g \<and> g \<le> 255 \<and> 0 \<le> b \<and> b \<le> 255)"

text \<open>A mid-tone: the sum of the channels is above 255 and at most 510.\<close>

definition midtone :: "int \<times> int \<times> int \<Rightarrow> bool" where
  "midtone rgb = (case rgb of (r, g, b) \<Rightarrow> 255 < r + g + b \<and> r + g + b \<le> 510)"

text \<open>
  One step of the flag, as the scan does it for each pixel, and the text the band loop
  appends for a pixel of colour rgb when the flag, already stepped, is sw.
\<close>

definition toggle :: "int \<Rightarrow> int" where
  "toggle sw = (sw - 1) * (- 1)"

definition pixel_text :: "int \<Rightarrow> int \<times> int \<times> int \<Rightarrow> string" where
  "pixel_text sw rgb =
     (case rgb of (r, g, b) \<Rightarrow> band_loop ''1X0'' (r + g + b) sw [0..<length ''1X0''] [])"

text \<open>
  The bit stream of an image of width w and height h in which the pixel at (x, y)
  contributes the text f x y: row after row, each row being the left padding of zeros,
  the texts of its pixels from left to right, and the right padding of zeros.
\<close>

definition padded_rows :: "nat \<Rightarrow> nat \<Rightarrow> (nat \<Rightarrow> nat \<Rightarrow> string) \<Rightarrow> string" where
  "padded_rows w h f =
     concat (map (\<lambda>y. replicate (nat (fst (check_image_size (int w)))) CHR ''0''
                       @ concat (map (\<lambda>x. f x y) [0..<w])
                       @ replicate (nat (snd (check_image_size (int w)))) CHR ''0'')
                 [0..<h])"

section \<open>Facts about the text primitives and the loop of \<^verbatim>\<open>_print_image\<close>\<close>

lemma hex_digits_table:
  "list_all (\<lambda>d. hex_value (hex_digit d) = Some d) [0..<16]"
  by code_simp

lemma hex_value_hex_digit: "d < 16 \<Longrightarrow> hex_value (hex_digit d) = Some d"
  using hex_digits_table by (simp add: list_all_iff)

lemma fmt_02X_byte:
  assumes "0 \<le> v" "v < 256"
  shows "fmt_02X v = [hex_digit (nat v div 16), hex_digit (nat v mod 16)]"
proof (cases "nat v < 16")
  case True
  then show ?thesis using assms
    by (simp add: fmt_02X_def hex_digits.simps [of "nat v"] hex_digit_def)
next
  case False
  then have "nat v div 16 < 16" using assms by simp
  with False show ?thesis using assms
    by (simp add: fmt_02X_def hex_digits.simps [of "nat v"] hex_digits.simps [of "nat v div 16"])
qed

lemma decode_hex_fmt_02X:
  assumes "0 \<le> v" "v < 256"
  shows "decode_hex (fmt_02X v @ rest) =
          (case decode_hex rest of Inl e \<Rightarrow> Inl e | Inr bs \<Rightarrow> Inr (char_of v # bs))"
proof -
  have d: "nat v div 16 < 16" "nat v mod 16 < 16" using assms by simp_all
  have "char_of (int (nat v)) = char_of (nat v)" by (rule char_of_nat)
  then have c: "char_of (nat v) = char_of v" using assms by simp
  show ?thesis
    by (simp add: fmt_02X_byte [OF assms] hex_value_hex_digit d c split: sum.splits)
qed

lemma of_char_range: "0 \<le> (of_char c :: int)" "(of_char c :: int) < 256"
proof -
  have e: "(of_char c :: int) = int (of_char c)" by (simp add: of_nat_of_char)
  show "0 \<le> (of_char c :: int)" by (simp add: e)
  have "(of_char c :: nat) < 256" by simp
  then show "(of_char c :: int) < 256" by (simp only: e)
qed

lemma decode_hex_hexes: "decode_hex (hexes bs) = Inr bs"
  by (induction bs) (simp_all add: hexes_def decode_hex_fmt_02X of_char_range)

lemma bin_value_snoc:
  "bin_value (s @ [c]) = 2 * bin_value s + (if c = CHR ''1'' then 1 else 0)"
  by (simp add: bin_value_def)

lemma bin_value_bounds: "0 \<le> bin_value s \<and> bin_value s < 2 ^ length s"
proof (induction s rule: rev_induct)
  case Nil
  show ?case by (simp add: bin_value_def)
next
  case (snoc c s)
  then show ?case by (simp add: bin_value_snoc)
qed

lemma groups4_short: "length bs < 4 \<Longrightarrow> groups4 bs = []"
  by (simp add: groups4.simps)

lemma leftover_short: "length bs < 4 \<Longrightarrow> leftover bs = bs"
  by (simp add: leftover.simps)

lemma groups4_full: "length xs = 4 \<Longrightarrow> groups4 (xs @ ys) = xs # groups4 ys"
  by (simp add: groups4.simps [of "xs @ ys"])

lemma leftover_full: "length xs = 4 \<Longrightarrow> leftover (xs @ ys) = leftover ys"
  by (simp add: leftover.simps [of "xs @ ys"])

lemma pack_Nil: "pack [] = []"
  by (simp add: pack.simps)

lemma pack_step: "line \<noteq> [] \<Longrightarrow> pack line = char_of (bin_value (take 8 line)) # pack (drop 8 line)"
  by (simp add: pack.simps [of line])

lemma int_base2_bits: "s \<noteq> [] \<Longrightarrow> list_all is_bit s \<Longrightarrow> int_base2 s = Inr (bin_value s)"
  by (simp add: int_base2_def)

lemma print_loop_spec:
  assumes "list_all is_bit line" "length pend = cont" "cont < 4" "buffer = hexes pend"
  shows "print_loop line i cont buffer p =
           (Inr (hexes (leftover (pend @ pack (drop i line)))),
            p\<lparr>written := written p @ groups4 (pend @ pack (drop i line))\<rparr>)"
  using assms
proof (induction line i cont buffer p arbitrary: pend rule: print_loop.induct)
  case (1 line i cont buffer p)
  show ?case
  proof (cases "i < length line")
    case False
    then show ?thesis using "1.prems"
      by (simp add: print_loop.simps [of line i] pack_Nil groups4_short leftover_short)
  next
    case True
    let ?chunk = "take 8 (drop i line)"
    let ?v = "bin_value ?chunk"
    have ne: "?chunk \<noteq> []" using True by simp
    have bits: "list_all is_bit ?chunk" using "1.prems"(1)
      by (auto simp: list_all_iff dest: in_set_takeD in_set_dropD)
    have pv: "int_base2 ?chunk = Inr ?v" by (rule int_base2_bits [OF ne bits])
    have "?v < 2 ^ length ?chunk" using bin_value_bounds by blast
    also have "\<dots> \<le> 2 ^ 8" by (rule power_increasing) simp_all
    finally have hi: "?v < 256" by simp
    have lo: "0 \<le> ?v" using bin_value_bounds by blast
    have pk: "pack (drop i line) = char_of ?v # pack (drop (i + 8) line)"
      using True by (simp add: pack_step [of "drop i line"] add.commute)
    have hx: "hexes (pend @ [char_of ?v]) = buffer @ fmt_02X ?v"
      using "1.prems"(4) lo hi by (simp add: hexes_def)
    show ?thesis
    proof (cases "(cont + 1) mod 4 = 0")
      case c4: True
      have "cont = 3" using c4 "1.prems"(3) by presburger
      then have len: "length (pend @ [char_of ?v]) = 4" using "1.prems"(2) by simp
      have dec: "decode_hex (buffer @ fmt_02X ?v) = Inr (pend @ [char_of ?v])"
        using decode_hex_hexes [of "pend @ [char_of ?v]"] by (simp only: hx)
      have ih: "print_loop line (i + 8) 0 [] (write_bytes (pend @ [char_of ?v]) p) =
                 (Inr (hexes (leftover ([] @ pack (drop (i + 8) line)))),
                  (write_bytes (pend @ [char_of ?v]) p)\<lparr>written := written (write_bytes (pend @ [char_of ?v]) p) @ groups4 ([] @ pack (drop (i + 8) line))\<rparr>)"
        by (rule "1.IH"(1) [OF True pv c4 dec "1.prems"(1)]) (simp_all add: hexes_def)
      have g: "groups4 (pend @ pack (drop i line)) = (pend @ [char_of ?v]) # groups4 (pack (drop (i + 8) line))"
        using groups4_full [OF len, of "pack (drop (i + 8) line)"] by (simp add: pk)
      have l: "leftover (pend @ pack (drop i line)) = leftover (pack (drop (i + 8) line))"
        using leftover_full [OF len, of "pack (drop (i + 8) line)"] by (simp add: pk)
      show ?thesis
        using True pv c4 dec ih
        by (simp add: print_loop.simps [of line i] g l write_bytes_def)
    next
      case c4: False
      have ih: "print_loop line (i + 8) (cont + 1) (buffer @ fmt_02X ?v) p =
                 (Inr (hexes (leftover ((pend @ [char_of ?v]) @ pack (drop (i + 8) line)))),
                  p\<lparr>written := written p @ groups4 ((pend @ [char_of ?v]) @ pack (drop (i + 8) line))\<rparr>)"
      proof (rule "1.IH"(2) [OF True pv c4 "1.prems"(1)])
        show "length (pend @ [char_of ?v]) = cont + 1" using "1.prems"(2) by simp
        show "cont + 1 < 4" using c4 "1.prems"(3) by presburger
        show "buffer @ fmt_02X ?v = hexes (pend @ [char_of ?v])" by (simp only: hx)
      qed
      show ?thesis
        using True pv c4 ih by (simp add: print_loop.simps [of line i] pk)
    qed
  qed
qed

section \<open>Facts about the padding and the scan\<close>

lemma fmt_d_bit: "fmt_d 0 = ''0''" "fmt_d 1 = ''1''"
  by (simp_all add: fmt_d_def dec_digits.simps dec_digit_def)

lemma check_image_size_nonneg:
  "0 \<le> fst (check_image_size w) \<and> 0 \<le> snd (check_image_size w)"
  by (simp add: check_image_size_def Let_def) presburger

lemma check_image_size_total:
  "(fst (check_image_size w) + w + snd (check_image_size w)) mod 32 = 0"
  by (simp add: check_image_size_def Let_def) presburger

lemma check_image_size_diff:
  "snd (check_image_size w) - fst (check_image_size w) = 0
   \<or> snd (check_image_size w) - fst (check_image_size w) = 1"
  by (simp add: check_image_size_def Let_def)

lemma check_image_size_small:
  "fst (check_image_size w) + snd (check_image_size w) < 32"
  by (simp add: check_image_size_def Let_def) presburger

lemma band3:
  "band_loop ''1X0'' c sw [0..<length ''1X0''] line =
     (if c \<le> 255 then line @ ''1''
      else if c \<le> 510 then line @ fmt_d sw
      else if c \<le> 765 then line @ ''0''
      else line)"
  by (simp add: upt_rec)

lemma toggle_pow: "(toggle ^^ k) 0 = (if even k then 0 else 1)"
  by (induction k) (simp_all add: toggle_def)

lemma pixel_body_eq:
  "pixel_body im y x s =
     s\<lparr>img_size := (fst (img_size s) + 1, snd (img_size s)),
       switch := toggle (switch s),
       pix_line := pix_line s @ pixel_text (toggle (switch s)) (getpixel im (x, y))\<rparr>"
  by (simp add: pixel_body_def pixel_text_def toggle_def band3 Let_def split: prod.splits)

lemma fold_pixel_body:
  "fold (pixel_body im y) [0..<n] s =
     s\<lparr>img_size := (fst (img_size s) + int n, snd (img_size s)),
       switch := (toggle ^^ n) (switch s),
       pix_line := pix_line s
         @ concat (map (\<lambda>x. pixel_text ((toggle ^^ Suc x) (switch s)) (getpixel im (x, y))) [0..<n])\<rparr>"
  by (induction n) (simp_all add: pixel_body_eq)

lemma row_body_eq:
  "row_body im im_border im_left im_right y s =
     s\<lparr>img_size := (fst (img_size s) + fst im_border + int (fst (im_size im)) + snd im_border,
                    snd (img_size s) + 1),
       switch := (toggle ^^ fst (im_size im)) (switch s),
       pix_line := pix_line s @ im_left
         @ concat (map (\<lambda>x. pixel_text ((toggle ^^ Suc x) (switch s)) (getpixel im (x, y)))
                    [0..<fst (im_size im)])
         @ im_right\<rparr>"
  by (simp add: row_body_def Let_def fold_pixel_body)

lemma toggle_funpow_funpow: "(toggle ^^ a) ((toggle ^^ b) sw) = (toggle ^^ (b + a)) sw"
  by (simp add: funpow_add add.commute)

lemma fold_row_body:
  "fold (row_body im im_border im_left im_right) [0..<m] s =
     s\<lparr>img_size := (fst (img_size s)
                      + int m * (fst im_border + int (fst (im_size im)) + snd im_border),
                    snd (img_size s) + int m),
       switch := (toggle ^^ (m * fst (im_size im))) (switch s),
       pix_line := pix_line s
         @ concat (map (\<lambda>y. im_left
                     @ concat (map (\<lambda>x. pixel_text ((toggle ^^ (y * fst (im_size im) + x + 1)) (switch s))
                                          (getpixel im (x, y)))
                                [0..<fst (im_size im)])
                     @ im_right) [0..<m])\<rparr>"
  (is "_ = ?case_rhs m")
proof (induction m)
  case 0
  show ?case by simp
next
  case (Suc m)
  have "fold (row_body im im_border im_left im_right) [0..<Suc m] s =
          row_body im im_border im_left im_right m
            (fold (row_body im im_border im_left im_right) [0..<m] s)"
    by simp
  also have "\<dots> = ?case_rhs (Suc m)"
    unfolding Suc by (simp add: row_body_eq toggle_funpow_funpow algebra_simps)
  finally show ?case .
qed

lemma scan_image_eq:
  "scan_image im =
     \<lparr>pix_line = padded_rows (fst (im_size im)) (snd (im_size im))
        (\<lambda>x y. pixel_text ((toggle ^^ (y * fst (im_size im) + x + 1)) 0) (getpixel im (x, y))),
      switch = (toggle ^^ (snd (im_size im) * fst (im_size im))) 0,
      img_size = (int (snd (im_size im)) * padded_width (fst (im_size im)), int (snd (im_size im)))\<rparr>"
  by (simp add: scan_image_def Let_def fold_row_body padded_rows_def padded_width_def)

section \<open>Facts about the text of a pixel and the rows\<close>

lemma toggle_pow_bit: "(toggle ^^ k) 0 = 0 \<or> (toggle ^^ k) 0 = 1"
  by (simp add: toggle_pow)

lemma pixel_text_eq:
  "pixel_text sw (r, g, b) =
     (if r + g + b \<le> 255 then ''1''
      else if r + g + b \<le> 510 then fmt_d sw
      else if r + g + b \<le> 765 then ''0''
      else [])"
  by (simp add: pixel_text_def band3)

lemma pixel_text_bits:
  assumes "sw = 0 \<or> sw = 1"
  shows "list_all is_bit (pixel_text sw rgb)"
  using assms by (cases rgb) (auto simp: pixel_text_eq fmt_d_bit is_bit_def)

lemma pixel_text_one:
  assumes "pixel_ok rgb" "sw = 0 \<or> sw = 1"
  shows "length (pixel_text sw rgb) = 1"
  using assms by (cases rgb) (auto simp: pixel_text_eq fmt_d_bit pixel_ok_def)

lemma pixel_text_midtone:
  assumes "midtone rgb"
  shows "pixel_text sw rgb = fmt_d sw"
  using assms by (cases rgb) (auto simp: pixel_text_eq midtone_def)

lemma all_pixelsD:
  assumes "all_pixels P im" "x < fst (im_size im)" "y < snd (im_size im)"
  shows "P (getpixel im (x, y))"
  using assms by (simp add: all_pixels_def list_all_iff)

lemma padded_rows_cong:
  assumes "\<And>x y. x < w \<Longrightarrow> y < h \<Longrightarrow> f x y = g x y"
  shows "padded_rows w h f = padded_rows w h g"
proof -
  have inner: "concat (map (\<lambda>x. f x y) [0..<w]) = concat (map (\<lambda>x. g x y) [0..<w])"
    if "y < h" for y
  proof -
    have "map (\<lambda>x. f x y) [0..<w] = map (\<lambda>x. g x y) [0..<w]"
      by (rule map_cong [OF refl]) (simp add: assms that)
    then show ?thesis by (rule arg_cong)
  qed
  show ?thesis
    unfolding padded_rows_def
    by (rule arg_cong [where f = concat], rule map_cong [OF refl]) (simp add: inner)
qed

lemma zeros_bits: "list_all is_bit (replicate n CHR ''0'')"
  by (simp add: list_all_iff is_bit_def)

lemma list_all_concat_map:
  assumes "\<And>x. x \<in> set xs \<Longrightarrow> list_all P (f x)"
  shows "list_all P (concat (map f xs))"
  using assms by (induction xs) simp_all

lemma padded_rows_bits:
  assumes "\<And>x y. x < w \<Longrightarrow> y < h \<Longrightarrow> list_all is_bit (f x y)"
  shows "list_all is_bit (padded_rows w h f)"
proof -
  have inner: "list_all is_bit (concat (map (\<lambda>x. f x y) [0..<w]))" if "y < h" for y
    by (rule list_all_concat_map) (simp add: assms that)
  show ?thesis
    unfolding padded_rows_def
    by (rule list_all_concat_map) (simp add: zeros_bits inner)
qed

lemma length_concat_units:
  assumes "\<And>x. x \<in> set xs \<Longrightarrow> length (f x) = n"
  shows "length (concat (map f xs)) = length xs * n"
  using assms by (induction xs) simp_all

lemma padded_width_nat:
  "nat (padded_width w) =
     nat (fst (check_image_size (int w))) + w + nat (snd (check_image_size (int w)))"
  using check_image_size_nonneg [of "int w"] by (simp add: padded_width_def nat_add_distrib)

lemma padded_rows_length:
  assumes "\<And>x y. x < w \<Longrightarrow> y < h \<Longrightarrow> length (f x y) = 1"
  shows "length (padded_rows w h f) = h * nat (padded_width w)"
proof -
  have row: "length (concat (map (\<lambda>x. f x y) [0..<w])) = w" if "y < h" for y
    using length_concat_units [of "[0..<w]" "\<lambda>x. f x y" 1] assms that by simp
  have "length (padded_rows w h f) = length [0..<h] * nat (padded_width w)"
    unfolding padded_rows_def
    by (rule length_concat_units) (simp add: row padded_width_nat)
  then show ?thesis by simp
qed

lemma padded_width_dvd: "32 dvd nat (padded_width w)"
proof -
  have "padded_width w mod 32 = 0"
    unfolding padded_width_def by (rule check_image_size_total)
  moreover have "0 \<le> padded_width w"
    using check_image_size_nonneg [of "int w"] by (simp add: padded_width_def)
  ultimately show ?thesis by presburger
qed

lemma padded_width_bounds: "int w \<le> padded_width w \<and> padded_width w < int w + 32"
  using check_image_size_nonneg [of "int w"] check_image_size_small [of "int w"]
  by (simp add: padded_width_def)

lemma scan_pix_line:
  "pix_line (scan_image im) =
     padded_rows (fst (im_size im)) (snd (im_size im))
       (\<lambda>x y. pixel_text ((toggle ^^ (y * fst (im_size im) + x + 1)) 0) (getpixel im (x, y)))"
  by (simp add: scan_image_eq)

lemma scan_img_size:
  "img_size (scan_image im) =
     (int (snd (im_size im)) * padded_width (fst (im_size im)), int (snd (im_size im)))"
  by (simp add: scan_image_eq)

lemma scan_binary: "list_all is_bit (pix_line (scan_image im))"
proof -
  have "list_all is_bit (pixel_text ((toggle ^^ k) 0) rgb)" for k rgb
    by (rule pixel_text_bits) (rule toggle_pow_bit)
  then show ?thesis
    unfolding scan_pix_line by (intro padded_rows_bits)
qed

lemma scan_length:
  assumes "all_pixels pixel_ok im"
  shows "length (pix_line (scan_image im)) =
           snd (im_size im) * nat (padded_width (fst (im_size im)))"
proof -
  have "length (pixel_text ((toggle ^^ k) 0) (getpixel im (x, y))) = 1"
    if "x < fst (im_size im)" "y < snd (im_size im)" for k x y
    by (rule pixel_text_one) (rule all_pixelsD [OF assms that], rule toggle_pow_bit)
  then show ?thesis
    unfolding scan_pix_line by (intro padded_rows_length)
qed

section \<open>Facts about packing and grouping\<close>

lemma groups4_leftover: "concat (groups4 bs) @ leftover bs = bs"
proof (induction bs rule: groups4.induct)
  case (1 bs)
  show ?case
  proof (cases "length bs < 4")
    case True
    then show ?thesis by (simp add: groups4_short leftover_short)
  next
    case False
    then show ?thesis
      using "1.IH" by (simp add: groups4.simps [of bs] leftover.simps [of bs])
  qed
qed

lemma length_leftover: "length (leftover bs) = length bs mod 4"
proof (induction bs rule: leftover.induct)
  case (1 bs)
  show ?case
  proof (cases "length bs < 4")
    case True
    then show ?thesis by (simp add: leftover_short)
  next
    case False
    then have "length bs mod 4 = (length bs - 4) mod 4"
      by (simp add: le_mod_geq)
    with False show ?thesis
      using "1.IH" by (simp add: leftover.simps [of bs])
  qed
qed

lemma groups4_lengths: "list_all (\<lambda>g. length g = 4) (groups4 bs)"
proof (induction bs rule: groups4.induct)
  case (1 bs)
  show ?case
  proof (cases "length bs < 4")
    case True
    then show ?thesis by (simp add: groups4_short)
  next
    case False
    then show ?thesis
      using "1.IH" by (simp add: groups4.simps [of bs])
  qed
qed

lemma length_pack_mult: "length line = 8 * n \<Longrightarrow> length (pack line) = n"
proof (induction n arbitrary: line)
  case 0
  then show ?case by (simp add: pack_Nil)
next
  case (Suc n)
  then have ne: "line \<noteq> []" by auto
  have "length (drop 8 line) = 8 * n" using Suc.prems by simp
  then have "length (pack (drop 8 line)) = n" by (rule Suc.IH)
  then show ?case by (simp add: pack_step [OF ne])
qed

lemma length_pack: "8 dvd length line \<Longrightarrow> length (pack line) = length line div 8"
  using length_pack_mult [of line "length line div 8"] by simp

lemma bit_bin_value:
  "k < length s \<Longrightarrow> bit (bin_value s) k = (s ! (length s - Suc k) = CHR ''1'')"
proof (induction s arbitrary: k rule: rev_induct)
  case Nil
  then show ?case by simp
next
  case (snoc c s)
  show ?case
  proof (cases k)
    case 0
    then show ?thesis by (simp add: bin_value_snoc bit_0)
  next
    case (Suc j)
    with snoc.prems have j: "j < length s" by simp
    then have idx: "length s - Suc j < length s" by arith
    have "(2 * bin_value s + (if c = CHR ''1'' then 1 else 0)) div 2 = bin_value s"
      by simp
    then have "bit (bin_value (s @ [c])) (Suc j) = bit (bin_value s) j"
      by (simp add: bin_value_snoc bit_Suc)
    also have "\<dots> = (s ! (length s - Suc j) = CHR ''1'')"
      by (rule snoc.IH [OF j])
    also have "s ! (length s - Suc j) = (s @ [c]) ! (length (s @ [c]) - Suc (Suc j))"
      using idx by (simp add: nth_append)
    finally show ?thesis by (simp only: Suc)
  qed
qed

lemma bit_char: "is_bit c \<Longrightarrow> (if c = CHR ''1'' then CHR ''1'' else CHR ''0'') = c"
  by (auto simp: is_bit_def)

lemma expand_pack_byte:
  assumes "list_all is_bit s" "length s = 8"
  shows "expand_byte (char_of (bin_value s)) = s"
proof -
  have v: "0 \<le> bin_value s" "bin_value s < 256"
    using bin_value_bounds [of s] assms(2) by simp_all
  then have oc: "(of_char (char_of (bin_value s)) :: int) = bin_value s" by simp
  have b: "(if bit (bin_value s) k then CHR ''1'' else CHR ''0'') = s ! (7 - k)" if "k < 8" for k
  proof -
    have "s ! (7 - k) \<in> set s" using that assms(2) by simp
    then have "is_bit (s ! (7 - k))" using assms(1) by (simp add: list_all_iff)
    then show ?thesis
      using bit_bin_value [of k s] that assms(2) bit_char [of "s ! (7 - k)"] by simp
  qed
  have "expand_byte (char_of (bin_value s)) =
          [s ! 0, s ! 1, s ! 2, s ! 3, s ! 4, s ! 5, s ! 6, s ! 7]"
    unfolding expand_byte_def oc
    using b [of 7] b [of 6] b [of 5] b [of 4] b [of 3] b [of 2] b [of 1] b [of 0]
    by simp
  also have "\<dots> = s"
  proof -
    obtain b7 b6 b5 b4 b3 b2 b1 b0 where "s = [b7, b6, b5, b4, b3, b2, b1, b0]"
      using assms(2) by (auto simp: length_Suc_conv eval_nat_numeral)
    then show ?thesis by simp
  qed
  finally show ?thesis .
qed

lemma expand_pack_mult:
  "list_all is_bit line \<Longrightarrow> length line = 8 * n \<Longrightarrow> concat (map expand_byte (pack line)) = line"
proof (induction n arbitrary: line)
  case 0
  then show ?case by (simp add: pack_Nil)
next
  case (Suc n)
  then have ne: "line \<noteq> []" by auto
  have l8: "length (take 8 line) = 8" using Suc.prems(2) by simp
  have b8: "list_all is_bit (take 8 line)"
    using Suc.prems(1) by (auto simp: list_all_iff dest: in_set_takeD)
  have br: "list_all is_bit (drop 8 line)"
    using Suc.prems(1) by (auto simp: list_all_iff dest: in_set_dropD)
  have "length (drop 8 line) = 8 * n" using Suc.prems(2) by simp
  then have "concat (map expand_byte (pack (drop 8 line))) = drop 8 line"
    by (rule Suc.IH [OF br])
  then show ?case
    by (simp add: pack_step [OF ne] expand_pack_byte [OF b8 l8])
qed

lemma expand_pack:
  assumes "list_all is_bit line" "8 dvd length line"
  shows "concat (map expand_byte (pack line)) = line"
  using expand_pack_mult [OF assms(1), of "length line div 8"] assms(2) by simp

section \<open>Facts about the whole of \<^verbatim>\<open>_print_image\<close> and \<^verbatim>\<open>_convert_and_print_image\<close>\<close>

lemma print_loop_start:
  assumes "list_all is_bit line"
  shows "print_loop line 0 0 [] p =
           (Inr (hexes (leftover (pack line))), p\<lparr>written := written p @ groups4 (pack line)\<rparr>)"
  using print_loop_spec [OF assms, of "[]" 0 "[]" 0 p] by (simp add: hexes_def)

lemma decode_header:
  assumes "0 \<le> a" "a < 256" "0 \<le> b" "b < 256"
  shows "decode_hex (fmt_02X a @ fmt_02X 0 @ fmt_02X b @ fmt_02X 0) =
           Inr [char_of a, CHR 0x00, char_of b, CHR 0x00]"
proof -
  have z: "char_of (0 :: int) = CHR 0x00" by (simp add: char_of_def)
  have "decode_hex (fmt_02X 0 @ []) = Inr [CHR 0x00]"
    by (simp add: decode_hex_fmt_02X z del: append_Nil2)
  then have 1: "decode_hex (fmt_02X 0) = Inr [CHR 0x00]" by simp
  have 2: "decode_hex (fmt_02X b @ fmt_02X 0) = Inr [char_of b, CHR 0x00]"
    by (simp add: decode_hex_fmt_02X [OF assms(3,4)] 1)
  have 3: "decode_hex (fmt_02X 0 @ fmt_02X b @ fmt_02X 0) = Inr [CHR 0x00, char_of b, CHR 0x00]"
    by (simp add: decode_hex_fmt_02X 2 z)
  show ?thesis
    by (simp add: decode_hex_fmt_02X [OF assms(1,2)] 3)
qed

lemma print_image_spec:
  assumes "list_all is_bit line" "snd size' \<noteq> 0"
    "0 \<le> (fst size' div snd size') div 8" "(fst size' div snd size') div 8 < 256"
    "0 \<le> snd size'" "snd size' < 256"
  shows "print_image line size' p =
           (Inr (),
            p\<lparr>written := written p
                 @ [image_size_1x1,
                    [char_of ((fst size' div snd size') div 8), CHR 0x00, char_of (snd size'), CHR 0x00]]
                 @ groups4 (pack line)\<rparr>)"
  using assms(2)
  by (simp add: print_image_def Let_def decode_header [OF assms(3,4,5,6)]
        print_loop_start [OF assms(1)] write_bytes_def)

lemma print_image_zero_height:
  "print_image line (a, 0) p = (Inl ZeroDivisionError, write_bytes image_size_1x1 p)"
  by (simp add: print_image_def)

lemma convert_and_print_image_spec:
  assumes "snd (im_size im) \<noteq> 0" "snd (im_size im) \<le> 255"
    "padded_width (fst (im_size im)) div 8 < 256"
  shows "convert_and_print_image im p =
           (Inr (),
            p\<lparr>written := written p
                 @ [image_size_1x1,
                    [char_of (padded_width (fst (im_size im)) div 8), CHR 0x00,
                     char_of (int (snd (im_size im))), CHR 0x00]]
                 @ groups4 (pack (pix_line (scan_image im))),
              stdout := stdout p @ (if fst (im_size im) > 512 then [width_warning] else [])\<rparr>)"
proof -
  let ?h = "int (snd (im_size im))"
  let ?T = "padded_width (fst (im_size im))"
  have d: "(?h * ?T) div ?h = ?T" using assms(1) by simp
  have "0 \<le> ?T" using padded_width_bounds [of "fst (im_size im)"] by linarith
  then have nn: "0 \<le> ?T div 8" by (simp add: pos_imp_zdiv_nonneg_iff)
  have "print_image (pix_line (scan_image im)) (img_size (scan_image im)) q =
           (Inr (),
            q\<lparr>written := written q
                 @ [image_size_1x1, [char_of (?T div 8), CHR 0x00, char_of ?h, CHR 0x00]]
                 @ groups4 (pack (pix_line (scan_image im)))\<rparr>)" for q
    using print_image_spec [OF scan_binary [of im], of "img_size (scan_image im)" q]
      assms nn by (simp add: scan_img_size d)
  then show ?thesis
    using assms(2) by (simp add: convert_and_print_image_def Let_def print_line_def)
qed

section \<open>The padding calculator\<close>

text \<open>
  C5. For every width of at least 1 that is not a multiple of 32, \<^verbatim>\<open>_check_image_size\<close>
  returns a pair (l, r) of non-negative integers such that l + width + r is a multiple
  of 32 and r - l is 0 or 1; for every width that is a multiple of 32 it returns (0, 0).
\<close>

theorem check_image_size_pads_to_32:
  "(width mod 32 = 0 \<longrightarrow> check_image_size width = (0, 0)) \<and>
   (1 \<le> width \<and> width mod 32 \<noteq> 0 \<longrightarrow>
      (case check_image_size width of
         (l, r) \<Rightarrow> 0 \<le> l \<and> 0 \<le> r \<and> (l + width + r) mod 32 = 0 \<and> (r - l = 0 \<or> r - l = 1)))"
proof -
  have "width mod 32 = 0 \<longrightarrow> check_image_size width = (0, 0)"
    by (simp add: check_image_size_def)
  moreover have "case check_image_size width of
         (l, r) \<Rightarrow> 0 \<le> l \<and> 0 \<le> r \<and> (l + width + r) mod 32 = 0 \<and> (r - l = 0 \<or> r - l = 1)"
    using check_image_size_nonneg [of width] check_image_size_total [of width]
      check_image_size_diff [of width]
    by (simp add: case_prod_beta)
  ultimately show ?thesis by blast
qed

theorem check_image_size_pads_to_32_witness:
  "(64 :: int) mod 32 = 0 \<and> check_image_size 64 = (0, 0) \<and>
   (1 :: int) \<le> 37 \<and> (37 :: int) mod 32 \<noteq> 0 \<and>
   (case check_image_size 37 of
      (l, r) \<Rightarrow> 0 \<le> l \<and> 0 \<le> r \<and> (l + 37 + r) mod 32 = 0 \<and> (r - l = 0 \<or> r - l = 1)) \<and>
   check_image_size 37 = (13, 14)"
proof -
  have "check_image_size 37 = (13, 14)" by (simp add: check_image_size_def)
  then show ?thesis
    using check_image_size_pads_to_32 [of 64] check_image_size_pads_to_32 [of 37] by simp
qed

section \<open>Validation\<close>

text \<open>
  C4. For every image with height above 255, \<^verbatim>\<open>_convert_and_print_image\<close> raises
  ValueError at its entry and the sink receives no write: the strings written are
  those written before the call.
\<close>

theorem tall_image_rejected_before_any_write:
  assumes "snd (im_size im) > 255"
  shows "fst (convert_and_print_image im p) = Inl ValueError \<and>
         written (snd (convert_and_print_image im p)) = written p"
  using assms by (simp add: convert_and_print_image_def print_line_def)

theorem tall_image_rejected_before_any_write_witness:
  "snd (im_size (uniform_image 32 256 (0, 0, 0))) > 255 \<and>
   fst (convert_and_print_image (uniform_image 32 256 (0, 0, 0)) fresh) = Inl ValueError \<and>
   written (snd (convert_and_print_image (uniform_image 32 256 (0, 0, 0)) fresh)) = []"
proof -
  have h: "snd (im_size (uniform_image 32 256 (0, 0, 0))) > 255"
    by (simp add: uniform_image_def)
  show ?thesis
    using h tall_image_rejected_before_any_write [OF h, of fresh] by (simp add: fresh_def)
qed

section \<open>A complete run\<close>

text \<open>
  C8. For the all-black image 32 pixels wide and 1 pixel high, the sink receives the
  4-byte preamble, then the header bytes 4, 0, 1, 0, then the four bytes FF FF FF FF
  as one write of 4 bytes, and nothing else.
\<close>

theorem black_32x1_output:
  "convert_and_print_image (uniform_image 32 1 (0, 0, 0)) fresh =
     (Inr (),
      \<lparr>written = [[CHR 0x1D, CHR 0x76, CHR 0x30, CHR 0x00],
                  [CHR 0x04, CHR 0x00, CHR 0x01, CHR 0x00],
                  [CHR 0xFF, CHR 0xFF, CHR 0xFF, CHR 0xFF]],
       stdout = []\<rparr>)"
  by code_simp

section \<open>The round trip of packing\<close>

lemma leftover_aligned:
  assumes "32 dvd length line"
  shows "leftover (pack line) = []"
proof -
  have 8: "8 dvd length line" using assms by presburger
  have "length (pack line) mod 4 = 0"
    using assms by (simp only: length_pack [OF 8]) presburger
  then show ?thesis using length_leftover [of "pack line"] by simp
qed

text \<open>
  C9. For every bit sequence whose length is a multiple of 8, the bytes the loop of
  \<^verbatim>\<open>_print_image\<close> forms from it (those it writes in groups of four, followed by
  those left in its buffer) are length / 8 bytes, and expanding each of them into
  eight bits, most significant first, gives the bit sequence back.
\<close>

theorem pack_expand_round_trip:
  assumes "list_all is_bit line" "8 dvd length line"
  shows "print_loop line 0 0 [] p =
           (Inr (hexes (leftover (pack line))), p\<lparr>written := written p @ groups4 (pack line)\<rparr>) \<and>
         decode_hex (hexes (leftover (pack line))) = Inr (leftover (pack line)) \<and>
         concat (groups4 (pack line)) @ leftover (pack line) = pack line \<and>
         length (pack line) = length line div 8 \<and>
         concat (map expand_byte (pack line)) = line"
  using print_loop_start [OF assms(1)] decode_hex_hexes groups4_leftover
    length_pack [OF assms(2)] expand_pack [OF assms] by simp

theorem pack_expand_round_trip_witness:
  "list_all is_bit ''1010010111110000'' \<and> 8 dvd length ''1010010111110000'' \<and>
   pack ''1010010111110000'' = [CHR 0xA5, CHR 0xF0] \<and>
   length (pack ''1010010111110000'') = length ''1010010111110000'' div 8 \<and>
   concat (map expand_byte (pack ''1010010111110000'')) = ''1010010111110000''"
proof -
  have b: "list_all is_bit ''1010010111110000''" by (simp add: is_bit_def)
  have d: "8 dvd length ''1010010111110000''" by code_simp
  have p: "pack ''1010010111110000'' = [CHR 0xA5, CHR 0xF0]" by code_simp
  show ?thesis
    using b d p pack_expand_round_trip [OF b d, of fresh] by simp
qed

section \<open>The partial group\<close>

text \<open>
  C2, as the code has it. When the bit string has a length that is a multiple of 8 but
  not of 32, the final group of fewer than 4 packed bytes is not written:
  \<^verbatim>\<open>_print_image\<close> writes the preamble, the header and the complete groups of 4 bytes
  only, and the 1 to 3 bytes that remain stay, as hexadecimal text, in the loop's buffer,
  which is dropped when the function returns.
\<close>

theorem partial_group_not_written:
  assumes "list_all is_bit line" "8 dvd length line" "\<not> 32 dvd length line"
    and "snd size' \<noteq> 0" "0 \<le> (fst size' div snd size') div 8"
    "(fst size' div snd size') div 8 < 256" "0 \<le> snd size'" "snd size' < 256"
  shows "print_loop line 0 0 [] p =
           (Inr (hexes (leftover (pack line))), p\<lparr>written := written p @ groups4 (pack line)\<rparr>) \<and>
         print_image line size' p =
           (Inr (),
            p\<lparr>written := written p
                 @ [image_size_1x1,
                    [char_of ((fst size' div snd size') div 8), CHR 0x00, char_of (snd size'), CHR 0x00]]
                 @ groups4 (pack line)\<rparr>) \<and>
         list_all (\<lambda>g. length g = 4) (groups4 (pack line)) \<and>
         concat (groups4 (pack line)) @ leftover (pack line) = pack line \<and>
         leftover (pack line) \<noteq> [] \<and> length (leftover (pack line)) < 4"
proof -
  have "length (pack line) mod 4 \<noteq> 0"
    using assms(2,3) by (simp only: length_pack [OF assms(2)]) presburger
  then have "leftover (pack line) \<noteq> []"
    using length_leftover [of "pack line"] by auto
  moreover have "length (leftover (pack line)) < 4"
    by (simp add: length_leftover)
  ultimately show ?thesis
    using print_loop_start [OF assms(1), of p]
      print_image_spec [OF assms(1,4,5,6,7,8), of p]
      groups4_lengths [of "pack line"] groups4_leftover [of "pack line"]
    by simp
qed

theorem partial_group_not_written_witness:
  "list_all is_bit ''11111111'' \<and> 8 dvd length ''11111111'' \<and> \<not> 32 dvd length ''11111111'' \<and>
   print_loop ''11111111'' 0 0 [] fresh = (Inr ''FF'', fresh) \<and>
   groups4 (pack ''11111111'') = [] \<and>
   leftover (pack ''11111111'') = [CHR 0xFF]"
proof -
  have b: "list_all is_bit ''11111111''" by (simp add: is_bit_def)
  have d: "8 dvd length ''11111111''" by code_simp
  have n: "\<not> 32 dvd length ''11111111''" by code_simp
  have p: "pack ''11111111'' = [CHR 0xFF]" by code_simp
  have g: "groups4 [CHR 0xFF] = []" by code_simp
  have l: "leftover [CHR 0xFF] = [CHR 0xFF]" by code_simp
  have h: "hexes [CHR 0xFF] = ''FF''" by code_simp
  have f: "fresh\<lparr>written := written fresh @ []\<rparr> = fresh" by (simp add: fresh_def)
  have "print_loop ''11111111'' 0 0 [] fresh =
          (Inr (hexes (leftover (pack ''11111111''))),
           fresh\<lparr>written := written fresh @ groups4 (pack ''11111111'')\<rparr>)"
    using partial_group_not_written [OF b d n, of "(8, 1)" fresh] by simp
  then have r: "print_loop ''11111111'' 0 0 [] fresh = (Inr ''FF'', fresh)"
    by (simp only: p g l h f)
  have g': "groups4 (pack ''11111111'') = []" by (simp only: p g)
  have l': "leftover (pack ''11111111'') = [CHR 0xFF]" by (simp only: p l)
  from b d n r g' l' show ?thesis by (intro conjI)
qed

text \<open>
  C2, as stated, fails: for the bit string 11111111 the byte FF is formed and never
  written; the sink receives the preamble and the header only.
\<close>

theorem partial_group_counterexample:
  "pack ''11111111'' = [CHR 0xFF] \<and>
   print_image ''11111111'' (8, 1) fresh =
     (Inr (),
      \<lparr>written = [[CHR 0x1D, CHR 0x76, CHR 0x30, CHR 0x00], [CHR 0x01, CHR 0x00, CHR 0x01, CHR 0x00]],
       stdout = []\<rparr>)"
  by code_simp

section \<open>One bit for each pixel\<close>

text \<open>
  C10. For every pixel whose three channels are in 0..255 the loop over the bands
  appends exactly one character, a 0 or a 1 (the flag being 0 or 1, as it is throughout
  the scan). Hence, for an image of such pixels, the bit stream has length
  height * (left padding + width + right padding), a multiple of 32, and the loop of
  \<^verbatim>\<open>_print_image\<close> ends with an empty buffer, having written every packed byte in
  groups of 4.
\<close>

theorem one_bit_per_pixel_and_aligned_stream:
  assumes "all_pixels pixel_ok im" "pixel_ok (r, g, b)" "sw = 0 \<or> sw = 1"
  shows "(\<exists>c. is_bit c \<and>
            band_loop ''1X0'' (r + g + b) sw [0..<length ''1X0''] line = line @ [c]) \<and>
         ((toggle ^^ k) 0 = 0 \<or> (toggle ^^ k) 0 = 1) \<and>
         length (pix_line (scan_image im)) =
           snd (im_size im) * nat (padded_width (fst (im_size im))) \<and>
         32 dvd length (pix_line (scan_image im)) \<and>
         print_loop (pix_line (scan_image im)) 0 0 [] p =
           (Inr [], p\<lparr>written := written p @ groups4 (pack (pix_line (scan_image im)))\<rparr>) \<and>
         list_all (\<lambda>g. length g = 4) (groups4 (pack (pix_line (scan_image im)))) \<and>
         concat (groups4 (pack (pix_line (scan_image im)))) = pack (pix_line (scan_image im)) \<and>
         length (pack (pix_line (scan_image im))) = length (pix_line (scan_image im)) div 8"
proof -
  let ?L = "pix_line (scan_image im)"
  define c where "c = (if r + g + b \<le> 255 then CHR ''1''
                       else if r + g + b \<le> 510 then (if sw = 0 then CHR ''0'' else CHR ''1'')
                       else CHR ''0'')"
  have le: "r + g + b \<le> 765" using assms(2) by (simp add: pixel_ok_def)
  have cb: "is_bit c" by (simp add: c_def is_bit_def)
  have "band_loop ''1X0'' (r + g + b) sw [0..<length ''1X0''] line = line @ [c]"
    using le assms(3) by (auto simp: band3 fmt_d_bit c_def)
  with cb have one: "\<exists>c. is_bit c \<and>
            band_loop ''1X0'' (r + g + b) sw [0..<length ''1X0''] line = line @ [c]"
    by blast
  have len: "length ?L = snd (im_size im) * nat (padded_width (fst (im_size im)))"
    by (rule scan_length [OF assms(1)])
  have d32: "32 dvd length ?L"
    unfolding len by (rule dvd_mult) (rule padded_width_dvd)
  then have d8: "8 dvd length ?L" by presburger
  have lo: "leftover (pack ?L) = []" by (rule leftover_aligned [OF d32])
  have run: "print_loop ?L 0 0 [] p = (Inr [], p\<lparr>written := written p @ groups4 (pack ?L)\<rparr>)"
    using print_loop_start [OF scan_binary, of im p] by (simp add: lo hexes_def)
  have all: "concat (groups4 (pack ?L)) = pack ?L"
    using groups4_leftover [of "pack ?L"] by (simp add: lo)
  from one toggle_pow_bit [of k] len d32 run groups4_lengths [of "pack ?L"] all
    length_pack [OF d8]
  show ?thesis by (intro conjI)
qed

theorem one_bit_per_pixel_and_aligned_stream_witness:
  "all_pixels pixel_ok (uniform_image 5 2 (100, 100, 100)) \<and> pixel_ok (100, 100, 100) \<and>
   band_loop ''1X0'' (100 + 100 + 100) 1 [0..<length ''1X0''] ''00'' = ''001'' \<and>
   length (pix_line (scan_image (uniform_image 5 2 (100, 100, 100)))) = 64 \<and>
   fst (print_loop (pix_line (scan_image (uniform_image 5 2 (100, 100, 100)))) 0 0 [] fresh) = Inr []"
proof -
  have a: "all_pixels pixel_ok (uniform_image 5 2 (100, 100, 100))" by code_simp
  have b: "pixel_ok (100, 100, 100)" by (simp add: pixel_ok_def)
  have c: "(1 :: int) = 0 \<or> (1 :: int) = 1" by simp
  have w: "padded_width 5 = 32" by (simp add: padded_width_def check_image_size_def)
  have e: "band_loop ''1X0'' (100 + 100 + 100) 1 [0..<length ''1X0''] ''00'' = ''001''"
    by code_simp
  have sz: "im_size (uniform_image 5 2 (100, 100, 100)) = (5, 2)"
    by (simp add: uniform_image_def)
  note t = one_bit_per_pixel_and_aligned_stream [OF a b c, of "''00''" 0 fresh]
  have l: "length (pix_line (scan_image (uniform_image 5 2 (100, 100, 100)))) = 64"
    using t by (simp add: sz w)
  have r: "fst (print_loop (pix_line (scan_image (uniform_image 5 2 (100, 100, 100)))) 0 0 [] fresh)
             = Inr []"
    using t by simp
  from a b e l r show ?thesis by (intro conjI)
qed

section \<open>The header\<close>

lemma im_size_uniform: "im_size (uniform_image w h rgb) = (w, h)"
  by (simp add: uniform_image_def)

lemma padded_width_small:
  assumes "w \<le> 2016"
  shows "padded_width w div 8 < 256"
proof -
  have "padded_width w mod 32 = 0"
    unfolding padded_width_def by (rule check_image_size_total)
  moreover have "padded_width w < int w + 32"
    using padded_width_bounds [of w] by simp
  ultimately show ?thesis using assms by presburger
qed

text \<open>
  C1, as the code has it. For every image with height from 1 to 255 and width at most
  2016, the call succeeds and the second string written, right after the preamble, is
  the 4-byte header whose first byte is the padded width divided by 8: the accumulated
  pair is (height * padded width, height), so (size[0] / size[1]) / 8 is the padded
  width divided by 8, whatever the height, and the division by 8 is exact.
\<close>

theorem header_width_byte:
  assumes "1 \<le> snd (im_size im)" "snd (im_size im) \<le> 255" "fst (im_size im) \<le> 2016"
  shows "img_size (scan_image im) =
           (int (snd (im_size im)) * padded_width (fst (im_size im)), int (snd (im_size im))) \<and>
         (fst (img_size (scan_image im)) div snd (img_size (scan_image im))) div 8 =
           padded_width (fst (im_size im)) div 8 \<and>
         padded_width (fst (im_size im)) mod 8 = 0 \<and>
         0 \<le> padded_width (fst (im_size im)) div 8 \<and>
         padded_width (fst (im_size im)) div 8 < 256 \<and>
         fst (convert_and_print_image im p) = Inr () \<and>
         written (snd (convert_and_print_image im p)) =
           written p
           @ [image_size_1x1,
              [char_of (padded_width (fst (im_size im)) div 8), CHR 0x00,
               char_of (int (snd (im_size im))), CHR 0x00]]
           @ groups4 (pack (pix_line (scan_image im)))"
proof -
  let ?h = "int (snd (im_size im))"
  let ?T = "padded_width (fst (im_size im))"
  have h0: "snd (im_size im) \<noteq> 0" using assms(1) by simp
  have sz: "img_size (scan_image im) = (?h * ?T, ?h)" by (rule scan_img_size)
  have dv: "(fst (img_size (scan_image im)) div snd (img_size (scan_image im))) div 8 = ?T div 8"
    using h0 by (simp add: sz)
  have "?T mod 32 = 0" unfolding padded_width_def by (rule check_image_size_total)
  then have m8: "?T mod 8 = 0" by presburger
  have "0 \<le> ?T" using padded_width_bounds [of "fst (im_size im)"] by linarith
  then have nn: "0 \<le> ?T div 8" by (simp add: pos_imp_zdiv_nonneg_iff)
  have lt: "?T div 8 < 256" by (rule padded_width_small [OF assms(3)])
  note run = convert_and_print_image_spec [OF h0 assms(2) lt, of p]
  have ok: "fst (convert_and_print_image im p) = Inr ()" by (simp add: run)
  have wr: "written (snd (convert_and_print_image im p)) =
           written p
           @ [image_size_1x1, [char_of (?T div 8), CHR 0x00, char_of ?h, CHR 0x00]]
           @ groups4 (pack (pix_line (scan_image im)))"
    by (simp add: run)
  from sz dv m8 nn lt ok wr show ?thesis by (intro conjI)
qed

theorem header_width_byte_witness:
  "1 \<le> snd (im_size (uniform_image 37 2 (0, 0, 0))) \<and>
   snd (im_size (uniform_image 37 2 (0, 0, 0))) \<le> 255 \<and>
   fst (im_size (uniform_image 37 2 (0, 0, 0))) \<le> 2016 \<and>
   img_size (scan_image (uniform_image 37 2 (0, 0, 0))) = (128, 2) \<and>
   fst (convert_and_print_image (uniform_image 37 2 (0, 0, 0)) fresh) = Inr () \<and>
   take 2 (written (snd (convert_and_print_image (uniform_image 37 2 (0, 0, 0)) fresh))) =
     [image_size_1x1, [CHR 0x08, CHR 0x00, CHR 0x02, CHR 0x00]]"
proof -
  have sz: "im_size (uniform_image 37 2 (0, 0, 0)) = (37, 2)"
    by (simp add: uniform_image_def)
  have a: "1 \<le> snd (im_size (uniform_image 37 2 (0, 0, 0)))" by (simp add: sz)
  have b: "snd (im_size (uniform_image 37 2 (0, 0, 0))) \<le> 255" by (simp add: sz)
  have c: "fst (im_size (uniform_image 37 2 (0, 0, 0))) \<le> 2016" by (simp add: sz)
  have w: "padded_width 37 = 64" by (simp add: padded_width_def check_image_size_def)
  have c8: "char_of (8 :: int) = CHR 0x08" by (simp add: char_of_def)
  have c2: "char_of (2 :: int) = CHR 0x02" by (simp add: char_of_def)
  note t = header_width_byte [OF a b c, of fresh]
  have i: "img_size (scan_image (uniform_image 37 2 (0, 0, 0))) = (128, 2)"
    using t by (simp add: sz w)
  have f: "fst (convert_and_print_image (uniform_image 37 2 (0, 0, 0)) fresh) = Inr ()"
    using t by simp
  have "written (snd (convert_and_print_image (uniform_image 37 2 (0, 0, 0)) fresh)) =
          [image_size_1x1, [CHR 0x08, CHR 0x00, CHR 0x02, CHR 0x00]]
          @ groups4 (pack (pix_line (scan_image (uniform_image 37 2 (0, 0, 0)))))"
    using t by (simp add: sz w c8 c2 fresh_def)
  then have h: "take 2 (written (snd (convert_and_print_image (uniform_image 37 2 (0, 0, 0)) fresh))) =
     [image_size_1x1, [CHR 0x08, CHR 0x00, CHR 0x02, CHR 0x00]]"
    by simp
  from a b c i f h show ?thesis by (intro conjI)
qed

lemma wide_header_text:
  "decode_hex (fmt_02X 256 @ fmt_02X 0 @ fmt_02X 1 @ fmt_02X 0) = Inl TypeError"
  by code_simp

lemma zero_height_divides_by_zero:
  assumes "snd (im_size im) = 0"
  shows "fst (convert_and_print_image im p) = Inl ZeroDivisionError \<and>
         written (snd (convert_and_print_image im p)) = written p @ [image_size_1x1]"
  using assms
  by (simp add: convert_and_print_image_def Let_def scan_img_size print_image_zero_height
        write_bytes_def print_line_def)

text \<open>
  C1, as stated, fails: an image 2048 pixels wide and 1 pixel high passes the validation
  (with the warning), but its header text has nine hexadecimal digits, decoding it
  raises TypeError, and no header is written after the preamble.
\<close>

theorem wide_image_header_counterexample:
  "convert_and_print_image (uniform_image 2048 1 (0, 0, 0)) fresh =
     (Inl TypeError, \<lparr>written = [image_size_1x1], stdout = [width_warning]\<rparr>)"
proof -
  have w: "padded_width 2048 = 2048" by (simp add: padded_width_def check_image_size_def)
  have sz: "img_size (scan_image (uniform_image 2048 1 (0, 0, 0))) = (2048, 1)"
    by (simp only: scan_img_size im_size_uniform fst_conv snd_conv w) simp
  have "print_image line (2048, 1) q = (Inl TypeError, write_bytes image_size_1x1 q)" for line q
    using wide_header_text by (simp add: print_image_def)
  then show ?thesis
    by (simp add: convert_and_print_image_def Let_def sz im_size_uniform
          print_line_def write_bytes_def fresh_def del: One_nat_def)
qed

section \<open>Images of width 0\<close>

text \<open>
  C3, as the code has it. An image of width 0 is not rejected: the validation looks at
  the height only. For width 0 and height from 1 to 255 the padding is (0, 0), no bit is
  produced, and the call returns normally after writing the preamble and the header
  0, 0, height, 0.
\<close>

theorem zero_width_not_rejected:
  assumes "fst (im_size im) = 0" "1 \<le> snd (im_size im)" "snd (im_size im) \<le> 255"
  shows "check_image_size (int (fst (im_size im))) = (0, 0) \<and>
         pix_line (scan_image im) = [] \<and>
         convert_and_print_image im p =
           (Inr (),
            p\<lparr>written := written p
                 @ [image_size_1x1, [CHR 0x00, CHR 0x00, char_of (int (snd (im_size im))), CHR 0x00]]\<rparr>)"
proof -
  have c0: "check_image_size 0 = (0, 0)" by (simp add: check_image_size_def)
  have w0: "padded_width 0 = 0" by (simp add: padded_width_def c0)
  have line: "pix_line (scan_image im) = []"
    by (simp add: scan_pix_line assms(1) padded_rows_def c0)
  have h0: "snd (im_size im) \<noteq> 0" using assms(2) by simp
  have lt: "padded_width (fst (im_size im)) div 8 < 256" by (simp add: assms(1) w0)
  have z: "char_of (0 :: int) = CHR 0x00" by (simp add: char_of_def)
  have g: "groups4 (pack []) = []" by (simp add: pack_Nil groups4_short)
  have run: "convert_and_print_image im p =
           (Inr (),
            p\<lparr>written := written p
                 @ [image_size_1x1, [CHR 0x00, CHR 0x00, char_of (int (snd (im_size im))), CHR 0x00]]\<rparr>)"
    using convert_and_print_image_spec [OF h0 assms(3) lt, of p]
    by (simp add: assms(1) w0 z line g)
  from c0 line run show ?thesis by (simp only: assms(1) of_nat_0)
qed

theorem zero_width_not_rejected_witness:
  "fst (im_size (uniform_image 0 3 (0, 0, 0))) = 0 \<and>
   1 \<le> snd (im_size (uniform_image 0 3 (0, 0, 0))) \<and>
   snd (im_size (uniform_image 0 3 (0, 0, 0))) \<le> 255 \<and>
   convert_and_print_image (uniform_image 0 3 (0, 0, 0)) fresh =
     (Inr (),
      \<lparr>written = [image_size_1x1, [CHR 0x00, CHR 0x00, CHR 0x03, CHR 0x00]], stdout = []\<rparr>)"
proof -
  have sz: "im_size (uniform_image 0 3 (0, 0, 0)) = (0, 3)"
    by (simp add: uniform_image_def)
  have a: "fst (im_size (uniform_image 0 3 (0, 0, 0))) = 0" by (simp add: sz)
  have b: "1 \<le> snd (im_size (uniform_image 0 3 (0, 0, 0)))" by (simp add: sz)
  have c: "snd (im_size (uniform_image 0 3 (0, 0, 0))) \<le> 255" by (simp add: sz)
  have c3: "char_of (3 :: int) = CHR 0x03" by (simp add: char_of_def)
  have r: "convert_and_print_image (uniform_image 0 3 (0, 0, 0)) fresh =
     (Inr (),
      \<lparr>written = [image_size_1x1, [CHR 0x00, CHR 0x00, CHR 0x03, CHR 0x00]], stdout = []\<rparr>)"
    using zero_width_not_rejected [OF a b c, of fresh] by (simp add: sz c3 fresh_def)
  from a b c r show ?thesis by (intro conjI)
qed

text \<open>
  C3, as stated, fails: for an image of width 0 and height 1 the call returns normally,
  and the sink has received the preamble and the header.
\<close>

theorem zero_width_counterexample:
  "convert_and_print_image (uniform_image 0 1 (0, 0, 0)) fresh =
     (Inr (),
      \<lparr>written = [[CHR 0x1D, CHR 0x76, CHR 0x30, CHR 0x00], [CHR 0x00, CHR 0x00, CHR 0x01, CHR 0x00]],
       stdout = []\<rparr>)"
  by code_simp

section \<open>The flag and the bits of uniform images\<close>

text \<open>
  C6. Each pixel steps the flag once, whatever its colour; the padding is made of
  characters 0 and does not step the flag, so that the pixel at (x, y) is encoded with
  the flag stepped y * width + x + 1 times from 0, and the flag has been stepped
  width * height times when the scan ends. For an image of mid-tones only, the bits of
  the pixels are therefore 1, 0, 1, 0, ... in scan order.
\<close>

theorem flag_steps_once_per_pixel:
  "switch (pixel_body im y x s) = toggle (switch s) \<and>
   toggle (switch s) = 1 - switch s \<and>
   pix_line (scan_image im) =
     padded_rows (fst (im_size im)) (snd (im_size im))
       (\<lambda>x y. pixel_text ((toggle ^^ (y * fst (im_size im) + x + 1)) 0) (getpixel im (x, y))) \<and>
   switch (scan_image im) = (toggle ^^ (snd (im_size im) * fst (im_size im))) 0 \<and>
   (all_pixels midtone im \<longrightarrow>
      pix_line (scan_image im) =
        padded_rows (fst (im_size im)) (snd (im_size im))
          (\<lambda>x y. if even (y * fst (im_size im) + x) then ''1'' else ''0''))"
proof -
  have mid: "pix_line (scan_image im) =
        padded_rows (fst (im_size im)) (snd (im_size im))
          (\<lambda>x y. if even (y * fst (im_size im) + x) then ''1'' else ''0'')"
    if m: "all_pixels midtone im"
    unfolding scan_pix_line
  proof (rule padded_rows_cong)
    fix x y
    assume xy: "x < fst (im_size im)" "y < snd (im_size im)"
    have "midtone (getpixel im (x, y))" by (rule all_pixelsD [OF m xy])
    then show "pixel_text ((toggle ^^ (y * fst (im_size im) + x + 1)) 0) (getpixel im (x, y)) =
                 (if even (y * fst (im_size im) + x) then ''1'' else ''0'')"
      by (simp add: pixel_text_midtone toggle_pow fmt_d_bit del: funpow.simps)
  qed
  have a: "switch (pixel_body im y x s) = toggle (switch s)" by (simp add: pixel_body_eq)
  have b: "toggle (switch s) = 1 - switch s" by (simp add: toggle_def)
  have c: "switch (scan_image im) = (toggle ^^ (snd (im_size im) * fst (im_size im))) 0"
    by (simp add: scan_image_eq)
  from a b scan_pix_line [of im] c mid show ?thesis by (intro conjI impI)
qed

theorem flag_steps_once_per_pixel_witness:
  "all_pixels midtone (uniform_image 5 2 (100, 100, 100)) \<and>
   pix_line (scan_image (uniform_image 5 2 (100, 100, 100))) =
     ''0000000000000101010000000000000000000000000000101000000000000000''"
proof -
  have m: "all_pixels midtone (uniform_image 5 2 (100, 100, 100))" by code_simp
  have p: "padded_rows 5 2 (\<lambda>x y. if even (y * 5 + x) then ''1'' else ''0'') =
             ''0000000000000101010000000000000000000000000000101000000000000000''"
    by code_simp
  note t = flag_steps_once_per_pixel [of "uniform_image 5 2 (100, 100, 100)" 0 0
      "\<lparr>pix_line = [], switch = 0, img_size = (0, 0)\<rparr>"]
  note l = t [THEN conjunct2, THEN conjunct2, THEN conjunct2, THEN conjunct2, THEN mp, OF m]
  have "pix_line (scan_image (uniform_image 5 2 (100, 100, 100))) =
          padded_rows 5 2 (\<lambda>x y. if even (y * 5 + x) then ''1'' else ''0'')"
    using l by (simp only: im_size_uniform fst_conv snd_conv)
  then have "pix_line (scan_image (uniform_image 5 2 (100, 100, 100))) =
     ''0000000000000101010000000000000000000000000000101000000000000000''"
    by (simp only: p)
  with m show ?thesis by (intro conjI)
qed

text \<open>
  C7. For an image whose pixels are all (255, 255, 255) every bit of a pixel is 0, and
  for an image whose pixels are all (0, 0, 0) every bit of a pixel is 1; around them
  each row has its padding of zeros.
\<close>

theorem white_and_black_images:
  "(all_pixels ((=) (255, 255, 255)) im \<longrightarrow>
      pix_line (scan_image im) =
        padded_rows (fst (im_size im)) (snd (im_size im)) (\<lambda>x y. ''0'')) \<and>
   (all_pixels ((=) (0, 0, 0)) im \<longrightarrow>
      pix_line (scan_image im) =
        padded_rows (fst (im_size im)) (snd (im_size im)) (\<lambda>x y. ''1''))"
proof -
  have white: "pix_line (scan_image im) =
        padded_rows (fst (im_size im)) (snd (im_size im)) (\<lambda>x y. ''0'')"
    if m: "all_pixels ((=) (255, 255, 255)) im"
    unfolding scan_pix_line
  proof (rule padded_rows_cong)
    fix x y
    assume xy: "x < fst (im_size im)" "y < snd (im_size im)"
    have "(255, 255, 255) = getpixel im (x, y)" by (rule all_pixelsD [OF m xy])
    then have "getpixel im (x, y) = (255, 255, 255)" by simp
    then show "pixel_text ((toggle ^^ (y * fst (im_size im) + x + 1)) 0) (getpixel im (x, y)) = ''0''"
      by (simp add: pixel_text_eq del: funpow.simps)
  qed
  have black: "pix_line (scan_image im) =
        padded_rows (fst (im_size im)) (snd (im_size im)) (\<lambda>x y. ''1'')"
    if m: "all_pixels ((=) (0, 0, 0)) im"
    unfolding scan_pix_line
  proof (rule padded_rows_cong)
    fix x y
    assume xy: "x < fst (im_size im)" "y < snd (im_size im)"
    have "(0, 0, 0) = getpixel im (x, y)" by (rule all_pixelsD [OF m xy])
    then have "getpixel im (x, y) = (0, 0, 0)" by simp
    then show "pixel_text ((toggle ^^ (y * fst (im_size im) + x + 1)) 0) (getpixel im (x, y)) = ''1''"
      by (simp add: pixel_text_eq del: funpow.simps)
  qed
  from white black show ?thesis by (intro conjI impI)
qed

theorem white_and_black_images_witness:
  "all_pixels ((=) (255, 255, 255)) (uniform_image 30 2 (255, 255, 255)) \<and>
   pix_line (scan_image (uniform_image 30 2 (255, 255, 255))) =
     ''0000000000000000000000000000000000000000000000000000000000000000'' \<and>
   all_pixels ((=) (0, 0, 0)) (uniform_image 30 2 (0, 0, 0)) \<and>
   pix_line (scan_image (uniform_image 30 2 (0, 0, 0))) =
     ''0111111111111111111111111111111001111111111111111111111111111110''"
proof -
  have w: "all_pixels ((=) (255, 255, 255)) (uniform_image 30 2 (255, 255, 255))" by code_simp
  have b: "all_pixels ((=) (0, 0, 0)) (uniform_image 30 2 (0, 0, 0))" by code_simp
  have pw: "padded_rows 30 2 (\<lambda>x y. ''0'') =
              ''0000000000000000000000000000000000000000000000000000000000000000''"
    by code_simp
  have pb: "padded_rows 30 2 (\<lambda>x y. ''1'') =
              ''0111111111111111111111111111111001111111111111111111111111111110''"
    by code_simp
  have lw: "pix_line (scan_image (uniform_image 30 2 (255, 255, 255))) =
              ''0000000000000000000000000000000000000000000000000000000000000000''"
    using white_and_black_images [of "uniform_image 30 2 (255, 255, 255)", THEN conjunct1, THEN mp, OF w]
    by (simp only: im_size_uniform fst_conv snd_conv pw)
  have lb: "pix_line (scan_image (uniform_image 30 2 (0, 0, 0))) =
              ''0111111111111111111111111111111001111111111111111111111111111110''"
    using white_and_black_images [of "uniform_image 30 2 (0, 0, 0)", THEN conjunct2, THEN mp, OF b]
    by (simp only: im_size_uniform fst_conv snd_conv pb)
  from w lw b lb show ?thesis by (intro conjI)
qed

end
